theory Spec2Isabelle
  imports Main "HOL-Library.Word"
begin

unbundle bit_operations_syntax

section \<open>Configuration constants\<close>

text \<open>\<^verbatim>\<open>#define MAX_SER_CYCLES_BEFORE_TIMEOUT 3\<close> and the default \<^verbatim>\<open>#define DIGITS 4\<close>.\<close>

definition MAX_SER_CYCLES_BEFORE_TIMEOUT :: "8 word" where
  "MAX_SER_CYCLES_BEFORE_TIMEOUT = 3"

definition DIGITS :: "8 word" where
  "DIGITS = 4"

section \<open>Data model\<close>

text \<open>The five pins named by the \<^verbatim>\<open>#define\<close>s at the top of the unit.\<close>

datatype Pin = SRCLK | SER | CNT | INCLK | INSER

text \<open>\<^verbatim>\<open>SerialQueue\<close>: sixteen one-bit slots packed into a \<^verbatim>\<open>uint16_t\<close>, and two
  \<^verbatim>\<open>uint8_t\<close> cursors. Every \<^verbatim>\<open>1 << n\<close> of the unit is taken at the width of the
  variable it is combined with; on the states the unit reaches the shift count is below
  that width (cursors below 16, at most 4 digits, at most 5 bits per group).\<close>

record SerialQueue =
  data :: "16 word"
  write_index :: "8 word"
  read_index :: "8 word"

record SRValueSender =
  val :: "8 word"
  index :: "8 word"
  going_high :: bool

datatype SRValueSenderStatus =
  SRValueSenderStatus_Beginning
  | SRValueSenderStatus_Middle
  | SRValueSenderStatus_Last
  | SRValueSenderStatus_Finished

text \<open>All file-scope variables of the unit, gathered in one record. The field
  \<open>pin_trace\<close> is the sequence of pin writes performed so far, oldest first: it stands for
  the output wires, which the unit drives through the pin layer.\<close>

record state =
  refresh_needed :: bool
  input_mode :: bool
  ser_input :: "8 word"
  ser_input_pos :: "8 word"
  display_value :: "32 word"
  display_dotmask :: "8 word"
  digit_count :: "8 word"
  ser_timeout :: "8 word"
  current_glyph :: "8 word"
  serial_queue :: SerialQueue
  sr_sender :: SRValueSender
  pin_trace :: "(Pin \<times> bool) list"

section \<open>Glyph matching\<close>

text \<open>\<^verbatim>\<open>glyph_matches\<close>, branch by branch; the \<^verbatim>\<open>switch\<close> is the chain of
  equalities on \<open>glyph\<close>, its missing \<^verbatim>\<open>default\<close> the final \<open>False\<close>.\<close>

definition glyph_matches :: "8 word \<Rightarrow> 8 word \<Rightarrow> bool" where
  "glyph_matches glyph digit =
    (if glyph < 10 \<and> glyph = digit then True
     else if glyph > 15 then False
     else if digit = 8 then True
     else if glyph = 1 then digit = 0 \<or> digit = 3 \<or> digit = 4 \<or> digit = 7 \<or> digit = 9
     else if glyph = 5 then digit = 6
     else if glyph = 7 then digit = 0 \<or> digit = 3 \<or> digit = 9
     else if glyph = 10 then digit = 2 \<or> digit = 6
     else if glyph = 11 then digit = 3 \<or> digit = 5 \<or> digit = 6
     else if glyph = 12 then digit = 4 \<or> digit = 9
     else if glyph = 13 then digit = 5 \<or> digit = 6 \<or> digit = 9
     else if glyph = 14 then digit = 6
     else False)"

text \<open>The table of the specification, kept apart from the code's definition so that the
  two can be compared: a glyph, and the digits that accept it besides the digit of the
  same number and the digit 8.\<close>

definition spec_glyph_table :: "(8 word \<times> 8 word list) list" where
  "spec_glyph_table =
    [(1, [0, 3, 4, 7, 9]), (5, [6]), (7, [0, 3, 9]), (10, [2, 6]),
     (11, [3, 5, 6]), (12, [4, 9]), (13, [5, 6, 9]), (14, [6])]"

definition spec_glyph_matches :: "8 word \<Rightarrow> 8 word \<Rightarrow> bool" where
  "spec_glyph_matches glyph digit =
    (glyph = digit \<or> digit = 8 \<or>
     (case map_of spec_glyph_table glyph of None \<Rightarrow> False | Some ds \<Rightarrow> digit \<in> set ds))"

section \<open>The pin layer\<close>

text \<open>Modelled from the spec: the pin layer of \<^verbatim>\<open>../common/pin.h\<close> (\<^verbatim>\<open>pinhigh\<close>,
  \<^verbatim>\<open>pinlow\<close>, \<^verbatim>\<open>pinset\<close>) is not part of the unit. The specification describes it as
  driving a named pin high or low; \<^verbatim>\<open>pinset\<close> drives the pin to the truth value of its
  argument. Each write is appended to \<open>pin_trace\<close>.\<close>

definition pinhigh :: "Pin \<Rightarrow> state \<Rightarrow> state" where
  "pinhigh p s = s\<lparr>pin_trace := pin_trace s @ [(p, True)]\<rparr>"

definition pinlow :: "Pin \<Rightarrow> state \<Rightarrow> state" where
  "pinlow p s = s\<lparr>pin_trace := pin_trace s @ [(p, False)]\<rparr>"

definition pinset :: "Pin \<Rightarrow> bool \<Rightarrow> state \<Rightarrow> state" where
  "pinset p high s = s\<lparr>pin_trace := pin_trace s @ [(p, high)]\<rparr>"

text \<open>Modelled from the spec: \<^verbatim>\<open>int_pow10\<close> of \<^verbatim>\<open>../common/intmath.h\<close> is not part of
  the unit. The specification gives the place weight of a digit as ten to the power
  \<open>digit_count\<close>; the result is taken at the width of \<^verbatim>\<open>amount_to_add\<close>, 32 bits.\<close>

definition int_pow10 :: "8 word \<Rightarrow> 32 word" where
  "int_pow10 n = 10 ^ unat n"

section \<open>The bit queue\<close>

definition serial_queue_init :: SerialQueue where
  "serial_queue_init = \<lparr>data = 0, write_index = 0, read_index = 0\<rparr>"

definition serial_queue_write :: "bool \<Rightarrow> SerialQueue \<Rightarrow> SerialQueue" where
  "serial_queue_write b q =
    (let q1 = (if b then q\<lparr>data := data q OR push_bit (unat (write_index q)) 1\<rparr>
               else q\<lparr>data := data q AND NOT (push_bit (unat (write_index q)) 1)\<rparr>);
         q2 = q1\<lparr>write_index := write_index q1 + 1\<rparr>
     in if write_index q2 = 16 then q2\<lparr>write_index := 0\<rparr> else q2)"

text \<open>\<^verbatim>\<open>serial_queue_read\<close> returns \<^verbatim>\<open>false\<close> and leaves everything alone when the two
  cursors are equal: that is \<open>None\<close>. Otherwise it stores the bit through the pointer and
  returns \<^verbatim>\<open>true\<close>: that is \<open>Some\<close> of the bit and the advanced queue.\<close>

definition serial_queue_read :: "SerialQueue \<Rightarrow> (bool \<times> SerialQueue) option" where
  "serial_queue_read q =
    (if read_index q = write_index q then None
     else
       let b = (data q AND push_bit (unat (read_index q)) 1 \<noteq> 0);
           q1 = q\<lparr>read_index := read_index q + 1\<rparr>
       in Some (b, if read_index q1 = 16 then q1\<lparr>read_index := 0\<rparr> else q1))"

section \<open>The shift register sender\<close>

definition init_sr_sender :: "8 word \<Rightarrow> state \<Rightarrow> state" where
  "init_sr_sender v s = s\<lparr>sr_sender := \<lparr>val = v, index = 0, going_high = False\<rparr>\<rparr>"

definition sr_sender_step :: "state \<Rightarrow> SRValueSenderStatus \<times> state" where
  "sr_sender_step s =
    (let sender = sr_sender s in
     if index sender < 8 then
       if going_high sender then
         let res = (if index sender = 7 then SRValueSenderStatus_Last
                    else SRValueSenderStatus_Middle);
             s1 = pinset SER (val sender AND push_bit (7 - unat (index sender)) 1 \<noteq> 0) s;
             s2 = pinhigh SRCLK s1
         in (res, s2\<lparr>sr_sender := sender\<lparr>going_high := False, index := index sender + 1\<rparr>\<rparr>)
       else
         let res = (if index sender = 0 then SRValueSenderStatus_Beginning
                    else SRValueSenderStatus_Middle);
             s1 = pinlow SRCLK s
         in (res, s1\<lparr>sr_sender := sender\<lparr>going_high := True\<rparr>\<rparr>)
     else (SRValueSenderStatus_Finished, s))"

section \<open>The display multiplexer\<close>

text \<open>The \<^verbatim>\<open>for\<close> loop of \<^verbatim>\<open>glyph_match_mask\<close>, from counter \<open>i\<close> on.\<close>

function glyph_match_mask_from :: "8 word \<Rightarrow> 16 word \<Rightarrow> 8 word \<Rightarrow> 8 word \<Rightarrow> 8 word" where
  "glyph_match_mask_from i v glyph res =
    (if i < DIGITS then
       glyph_match_mask_from (i + 1) (v div 10) glyph
         (if glyph_matches glyph (ucast (v mod 10)) then res OR push_bit (unat i) 1 else res)
     else res)"
  by pat_completeness auto
termination
proof (relation "measure (\<lambda>(i, v, glyph, res). unat DIGITS - unat i)")
  show "wf (measure (\<lambda>(i, v, glyph, res). unat DIGITS - unat i))"
    by simp
next
  fix i :: "8 word" and v :: "16 word" and glyph res :: "8 word"
  assume "i < DIGITS"
  then have "unat i < 4"
    by (simp add: DIGITS_def word_less_nat_alt)
  then have "unat (i + 1) = unat i + 1"
    by (simp add: unat_word_ariths)
  with \<open>unat i < 4\<close>
  show "((i + 1, v div 10, glyph,
          if glyph_matches glyph (ucast (v mod 10)) then res OR push_bit (unat i) 1 else res),
         i, v, glyph, res) \<in> measure (\<lambda>(i, v, glyph, res). unat DIGITS - unat i)"
    by (simp add: DIGITS_def)
qed

definition glyph_match_mask :: "16 word \<Rightarrow> 8 word \<Rightarrow> 8 word" where
  "glyph_match_mask v glyph = glyph_match_mask_from 0 v glyph 0"

text \<open>\<^verbatim>\<open>send_next_glyph\<close>; \<^verbatim>\<open>_delay_us\<close> changes no variable and no pin. The argument
  \<open>display_value\<close> is narrowed from 32 to 16 bits at the call.\<close>

definition send_next_glyph :: "state \<Rightarrow> state" where
  "send_next_glyph s =
    (let s1 = s\<lparr>current_glyph := current_glyph s + 1\<rparr>;
         s2 = (if current_glyph s1 = 0xf
               then (pinlow CNT (pinhigh CNT s1))\<lparr>current_glyph := 0\<rparr>
               else s1);
         s3 = pinhigh CNT s2
     in init_sr_sender (glyph_match_mask (ucast (display_value s3)) (current_glyph s3)) s3)"

definition perform_display_step :: "state \<Rightarrow> bool \<times> state" where
  "perform_display_step s =
    (case sr_sender_step s of
       (SRValueSenderStatus_Beginning, s1) \<Rightarrow> (True, s1)
     | (SRValueSenderStatus_Middle, s1) \<Rightarrow> (True, s1)
     | (SRValueSenderStatus_Last, s1) \<Rightarrow> (True, s1)
     | (SRValueSenderStatus_Finished, s1) \<Rightarrow> (False, pinlow CNT s1))"

section \<open>The input decoder\<close>

definition push_digit :: "8 word \<Rightarrow> state \<Rightarrow> state" where
  "push_digit value s =
    (let s1 = (if value AND 0b10000 \<noteq> 0
               then s\<lparr>display_dotmask := display_dotmask s OR push_bit (unat (digit_count s)) 1\<rparr>
               else s);
         value1 = (if value AND 0b10000 \<noteq> 0 then value AND 0b1111 else value)
     in if value1 \<ge> 10 then s1
        else
          let s2 = (if digit_count s1 = 0 then s1\<lparr>display_value := ucast value1\<rparr>
                    else s1\<lparr>display_value :=
                           display_value s1 + ucast value1 * int_pow10 (digit_count s1)\<rparr>)
          in s2\<lparr>digit_count := digit_count s2 + 1\<rparr>)"

definition begin_input_mode :: "state \<Rightarrow> state" where
  "begin_input_mode s =
    s\<lparr>input_mode := True, ser_timeout := MAX_SER_CYCLES_BEFORE_TIMEOUT, digit_count := 0,
      display_value := 0, display_dotmask := 0, ser_input_pos := 0, ser_input := 0\<rparr>"

definition end_input_mode :: "state \<Rightarrow> state" where
  "end_input_mode s = s\<lparr>input_mode := False, ser_timeout := 0, serial_queue := serial_queue_init\<rparr>"

section \<open>Interrupt handlers and set-up\<close>

text \<open>The edge handler; its argument is the level \<^verbatim>\<open>pinishigh(INSER)\<close> reads.\<close>

definition seg7multiplex_int0_interrupt :: "bool \<Rightarrow> state \<Rightarrow> state" where
  "seg7multiplex_int0_interrupt inser s =
    (if \<not> input_mode s then s\<lparr>input_mode := True\<rparr>
     else s\<lparr>serial_queue := serial_queue_write inser (serial_queue s)\<rparr>)"

definition seg7multiplex_timer0_interrupt :: "state \<Rightarrow> state" where
  "seg7multiplex_timer0_interrupt s = s\<lparr>refresh_needed := True\<rparr>"

text \<open>\<^verbatim>\<open>seg7multiplex_setup\<close>; the pin directions and the timer registers are outside the
  variables of the unit.\<close>

definition seg7multiplex_setup :: "state \<Rightarrow> state" where
  "seg7multiplex_setup s =
    s\<lparr>input_mode := False, serial_queue := serial_queue_init,
      sr_sender := (sr_sender s)\<lparr>index := 8\<rparr>,
      display_value := 0, display_dotmask := 0, ser_timeout := 0, current_glyph := 0,
      refresh_needed := True\<rparr>"

section \<open>The main loop\<close>

text \<open>The \<^verbatim>\<open>while (serial_queue_read(&flag))\<close> loop of \<^verbatim>\<open>seg7multiplex_loop\<close>. The
  Boolean of the result tells whether the loop was left by the \<^verbatim>\<open>return\<close> inside it. The
  loop need not end on a queue whose cursors are out of range, hence the option.\<close>

partial_function (option) drain_queue :: "state \<Rightarrow> (bool \<times> state) option" where
  "drain_queue s =
    (case serial_queue_read (serial_queue s) of
       None \<Rightarrow> Some (False, s)
     | Some (flag, q) \<Rightarrow>
         let s1 = s\<lparr>serial_queue := q\<rparr>;
             s2 = (if flag
                   then s1\<lparr>ser_input := ser_input s1 OR push_bit (unat (ser_input_pos s1)) 1\<rparr>
                   else s1);
             s3 = s2\<lparr>ser_input_pos := ser_input_pos s2 + 1\<rparr>;
             s4 = s3\<lparr>ser_timeout := MAX_SER_CYCLES_BEFORE_TIMEOUT\<rparr>
         in if ser_input_pos s4 = 5 then
              let s5 = push_digit (ser_input s4) s4;
                  s6 = s5\<lparr>ser_input := 0, ser_input_pos := 0\<rparr>
              in if digit_count s6 = DIGITS then Some (True, end_input_mode s6)
                 else drain_queue s6
            else drain_queue s4)"

declare drain_queue.simps [code]

definition seg7multiplex_loop :: "state \<Rightarrow> state option" where
  "seg7multiplex_loop s =
    (if input_mode s then
       let s1 = (if ser_timeout s = 0 then begin_input_mode s else s) in
       case drain_queue s1 of
         None \<Rightarrow> None
       | Some (True, s2) \<Rightarrow> Some s2
       | Some (False, s2) \<Rightarrow>
           if refresh_needed s2 then
             let s3 = s2\<lparr>refresh_needed := False\<rparr>;
                 s4 = s3\<lparr>ser_timeout := ser_timeout s3 - 1\<rparr>
             in if ser_timeout s4 = 0
                then Some ((end_input_mode s4)\<lparr>display_dotmask := 0x1\<rparr>)
                else Some s4
           else Some s2
     else
       case perform_display_step s of
         (True, s1) \<Rightarrow> Some s1
       | (False, s1) \<Rightarrow>
           if refresh_needed s1 then Some (send_next_glyph (s1\<lparr>refresh_needed := False\<rparr>))
           else Some s1)"

section \<open>Runs\<close>

text \<open>A run is a sequence of events, each taken as a whole: an edge on the input clock
  with the level of the data line, a timer tick, or one call of the main loop.\<close>

datatype event = Int0 bool | Timer0 | Loop

fun step_event :: "event \<Rightarrow> state \<Rightarrow> state option" where
  "step_event (Int0 b) s = Some (seg7multiplex_int0_interrupt b s)"
| "step_event Timer0 s = Some (seg7multiplex_timer0_interrupt s)"
| "step_event Loop s = seg7multiplex_loop s"

fun run :: "event list \<Rightarrow> state \<Rightarrow> state option" where
  "run [] s = Some s"
| "run (e # es) s = (case step_event e s of None \<Rightarrow> None | Some s1 \<Rightarrow> run es s1)"

text \<open>The variables as the C start-up code leaves them: static storage is zeroed.\<close>

definition power_on :: state where
  "power_on =
    \<lparr>refresh_needed = False, input_mode = False, ser_input = 0, ser_input_pos = 0,
     display_value = 0, display_dotmask = 0, digit_count = 0, ser_timeout = 0,
     current_glyph = 0, serial_queue = serial_queue_init,
     sr_sender = \<lparr>val = 0, index = 0, going_high = False\<rparr>, pin_trace = []\<rparr>"

section \<open>Observing the components\<close>

text \<open>The statuses returned by the first \<open>n\<close> calls of \<^verbatim>\<open>sr_sender_step\<close>, and the state
  they leave.\<close>

fun sr_sender_statuses :: "nat \<Rightarrow> state \<Rightarrow> SRValueSenderStatus list" where
  "sr_sender_statuses 0 s = []"
| "sr_sender_statuses (Suc n) s =
    (case sr_sender_step s of (res, s1) \<Rightarrow> res # sr_sender_statuses n s1)"

fun sr_sender_steps :: "nat \<Rightarrow> state \<Rightarrow> state" where
  "sr_sender_steps 0 s = s"
| "sr_sender_steps (Suc n) s = sr_sender_steps n (snd (sr_sender_step s))"

text \<open>Writing a list of bits, first bit first, and reading up to \<open>n\<close> times, stopping at
  the first read that returns \<^verbatim>\<open>false\<close>.\<close>

fun serial_queue_writes :: "bool list \<Rightarrow> SerialQueue \<Rightarrow> SerialQueue" where
  "serial_queue_writes [] q = q"
| "serial_queue_writes (b # bs) q = serial_queue_writes bs (serial_queue_write b q)"

fun serial_queue_reads :: "nat \<Rightarrow> SerialQueue \<Rightarrow> bool list \<times> SerialQueue" where
  "serial_queue_reads 0 q = ([], q)"
| "serial_queue_reads (Suc n) q =
    (case serial_queue_read q of
       None \<Rightarrow> ([], q)
     | Some (b, q1) \<Rightarrow> (case serial_queue_reads n q1 of (bs, q2) \<Rightarrow> (b # bs, q2)))"

text \<open>A test pattern of seventeen bits.\<close>

definition seventeen_bits :: "bool list" where
  "seventeen_bits =
    [False, True, False, True, True, False, False, True, False,
     True, True, True, False, False, True, False, True]"

section \<open>Scenarios and invariants\<close>

text \<open>Display mode as \<^verbatim>\<open>seg7multiplex_setup\<close> and \<^verbatim>\<open>end_input_mode\<close> leave it: not
  receiving, the watchdog at zero, the queue reset.\<close>

definition display_idle :: "state \<Rightarrow> bool" where
  "display_idle s =
    (\<not> input_mode s \<and> ser_timeout s = 0 \<and> serial_queue s = serial_queue_init)"

text \<open>One 5-bit group on the wire, first bit first, then (after a timer tick or not) one
  call of the main loop.\<close>

definition deliver_group :: "bool list \<Rightarrow> bool \<Rightarrow> event list" where
  "deliver_group bits tick = map Int0 bits @ (if tick then [Timer0] else []) @ [Loop]"

text \<open>What a run has decoded: \<open>display_value\<close>, \<open>digit_count\<close>, \<open>input_mode\<close> and
  \<open>display_dotmask\<close> of its final state.\<close>

definition decoded :: "state option \<Rightarrow> (32 word \<times> 8 word \<times> bool \<times> 8 word) option" where
  "decoded r =
    map_option (\<lambda>s. (display_value s, digit_count s, input_mode s, display_dotmask s)) r"

text \<open>The number of main-loop calls of a run that find the refresh tick pending.\<close>

fun pending_loops :: "event list \<Rightarrow> state \<Rightarrow> nat" where
  "pending_loops [] s = 0"
| "pending_loops (e # es) s =
    (if e = Loop \<and> refresh_needed s then 1 else 0) +
    (case step_event e s of None \<Rightarrow> 0 | Some s1 \<Rightarrow> pending_loops es s1)"

text \<open>The states of a frame that receives no data: \<open>waiting t\<close> is input mode with an
  empty queue, nothing decoded and the watchdog at \<open>t\<close>; \<open>timeout_phase k\<close> is where the
  unit stands once \<open>k\<close> loop calls have found the tick pending.\<close>

definition waiting :: "8 word \<Rightarrow> state \<Rightarrow> bool" where
  "waiting t s =
    (input_mode s \<and> read_index (serial_queue s) = write_index (serial_queue s) \<and>
     ser_timeout s = t \<and> display_value s = 0 \<and> display_dotmask s = 0)"

definition timeout_phase :: "nat \<Rightarrow> state \<Rightarrow> bool" where
  "timeout_phase k s =
    (if k = 0 then
       (input_mode s \<and> read_index (serial_queue s) = write_index (serial_queue s) \<and>
        ser_timeout s = 0) \<or> waiting 3 s
     else if k = 1 then waiting 2 s
     else if k = 2 then waiting 1 s
     else \<not> input_mode s \<and> display_value s = 0 \<and> display_dotmask s = 1)"

text \<open>The invariant behind the bound on \<open>display_value\<close>: both cursors stay below 16; while
  a frame is being decoded fewer than four digits are in, and \<open>display_value\<close> is below
  ten to the power \<open>digit_count\<close>. The number of unread bits measures the drain loop.\<close>

definition queue_in_range :: "SerialQueue \<Rightarrow> bool" where
  "queue_in_range q = (unat (read_index q) < 16 \<and> unat (write_index q) < 16)"

definition queue_fill :: "SerialQueue \<Rightarrow> nat" where
  "queue_fill q = (unat (write_index q) + 16 - unat (read_index q)) mod 16"

definition decoding :: "state \<Rightarrow> bool" where
  "decoding s =
    (input_mode s \<and> ser_timeout s \<noteq> 0 \<and> queue_in_range (serial_queue s) \<and>
     unat (digit_count s) < 4 \<and> unat (display_value s) < 10 ^ unat (digit_count s))"

definition safe :: "state \<Rightarrow> bool" where
  "safe s =
    (queue_in_range (serial_queue s) \<and> unat (display_value s) < 10000 \<and>
     (if input_mode s then ser_timeout s = 0 \<or> decoding s else ser_timeout s = 0))"

section \<open>Glyph matching against the table\<close>

lemma glyph_table_agrees:
  "\<forall>i \<in> set [0..<15]. \<forall>j \<in> set [0..<10].
     glyph_matches (of_nat i) (of_nat j) = spec_glyph_matches (of_nat i) (of_nat j)"
  by code_simp

text \<open>C5: for every glyph from 0 to 14 and every digit from 0 to 9, \<^verbatim>\<open>glyph_matches\<close>
  answers true exactly when the glyph equals the digit, or the digit is 8, or the pair is
  in the table of the specification.\<close>

theorem glyph_matches_table:
  "g \<le> 14 \<Longrightarrow> d \<le> 9 \<Longrightarrow> glyph_matches g d = spec_glyph_matches g d"
  using glyph_table_agrees[rule_format, of "unat g" "unat d"]
  by (simp add: word_le_nat_alt)

theorem glyph_matches_table_witness:
  "(5 :: 8 word) \<le> 14 \<and> (6 :: 8 word) \<le> 9 \<and> glyph_matches 5 6 \<and> spec_glyph_matches 5 6"
  using glyph_matches_table[of 5 6]
  by (simp add: glyph_matches_def)

text \<open>C9, as stated, fails at the blank glyph: the test for the digit 8 comes after the
  guard \<^verbatim>\<open>glyph > 15\<close>, which lets glyph 15 through, so glyph 15 matches digit 8.\<close>

theorem blank_glyph_matches_eight: "glyph_matches 15 8"
  by (simp add: glyph_matches_def)

text \<open>C9, amended: for a glyph outside 0 to 14 and a digit from 0 to 9,
  \<^verbatim>\<open>glyph_matches\<close> answers false, except for glyph 15 with digit 8, where it answers
  true.\<close>

theorem glyph_out_of_range:
  "15 \<le> g \<Longrightarrow> d \<le> 9 \<Longrightarrow> glyph_matches g d = (g = 15 \<and> d = 8)"
proof (cases "g = 15")
  case True
  assume "d \<le> 9"
  with True show ?thesis by (simp add: glyph_matches_def)
next
  case False
  assume "15 \<le> g"
  with False have "15 < g" by simp
  moreover from this have "\<not> g < 10" by (simp add: word_less_nat_alt)
  ultimately show ?thesis using False by (simp add: glyph_matches_def)
qed

theorem glyph_out_of_range_witness:
  "(15 :: 8 word) \<le> 200 \<and> (3 :: 8 word) \<le> 9 \<and> \<not> glyph_matches 200 3"
  using glyph_out_of_range[of 200 3] by simp

section \<open>The shift register sender, call by call\<close>

lemma sr_sender_statuses_add:
  "sr_sender_statuses (m + n) s =
     sr_sender_statuses m s @ sr_sender_statuses n (sr_sender_steps m s)"
  by (induction m arbitrary: s) (auto split: prod.splits)

lemma sr_sender_step_finished:
  "index (sr_sender s) = 8 \<Longrightarrow> sr_sender_step s = (SRValueSenderStatus_Finished, s)"
  by (simp add: sr_sender_step_def)

lemma sr_sender_statuses_finished:
  "index (sr_sender s) = 8 \<Longrightarrow>
   sr_sender_statuses n s = replicate n SRValueSenderStatus_Finished"
  by (induction n) (simp_all add: sr_sender_step_finished)

lemmas sender_unfold = sr_sender_step_def init_sr_sender_def pinset_def pinhigh_def pinlow_def

lemma sixteen_Suc:
  "(16::nat) =
    Suc (Suc (Suc (Suc (Suc (Suc (Suc (Suc (Suc (Suc (Suc (Suc (Suc (Suc (Suc (Suc 0)))))))))))))))"
  by simp

lemma replicate_fourteen: "replicate 14 x = [x, x, x, x, x, x, x, x, x, x, x, x, x, x]"
  by (simp add: eval_nat_numeral)

lemma sr_sender_sixteen_statuses:
  "sr_sender_statuses 16 (init_sr_sender b s) =
     SRValueSenderStatus_Beginning # replicate 14 SRValueSenderStatus_Middle @
     [SRValueSenderStatus_Last]"
  unfolding sixteen_Suc replicate_fourteen
  by (simp add: sender_unfold Let_def)

lemma sr_sender_sixteen_state:
  "sr_sender_steps 16 (init_sr_sender b s) =
     s\<lparr>sr_sender := \<lparr>val = b, index = 8, going_high = False\<rparr>,
       pin_trace := pin_trace s @
         concat (map (\<lambda>k. [(SRCLK, False), (SER, bit b (7 - k)), (SRCLK, True)]) [0..<8])\<rparr>"
  unfolding sixteen_Suc
  by (simp add: sender_unfold Let_def upt_rec bit_iff_and_push_bit_not_eq_0
           del: push_bit_numeral push_bit_of_1)

text \<open>C2, as stated, fails for the byte 0 (and for every other byte): the fifteenth call
  is the clock-low half of the last bit and returns Middle, not Last, and the sixteenth
  call returns Last, not Finished.\<close>

theorem sr_sender_call_15_16:
  "sr_sender_statuses 16 (init_sr_sender 0 power_on) ! 14 = SRValueSenderStatus_Middle \<and>
   sr_sender_statuses 16 (init_sr_sender 0 power_on) ! 15 = SRValueSenderStatus_Last"
  unfolding sr_sender_sixteen_statuses replicate_fourteen
  by simp

text \<open>C2, amended: for every byte \<open>b\<close>, after \<^verbatim>\<open>init_sr_sender(b)\<close> call 1 returns
  Beginning, calls 2 to 15 return Middle, call 16 returns Last, and call 17 and every later
  call returns Finished: sixteen calls send the byte and the seventeenth is the first to
  report Finished.\<close>

theorem sr_sender_status_sequence:
  "sr_sender_statuses (16 + n) (init_sr_sender b s) =
     SRValueSenderStatus_Beginning # replicate 14 SRValueSenderStatus_Middle @
     [SRValueSenderStatus_Last] @ replicate n SRValueSenderStatus_Finished"
  by (simp only: sr_sender_statuses_add sr_sender_sixteen_statuses sr_sender_sixteen_state)
     (simp add: sr_sender_statuses_finished)

lemma sr_sender_steps_add:
  "sr_sender_steps (m + n) s = sr_sender_steps n (sr_sender_steps m s)"
  by (induction m arbitrary: s) simp_all

lemma sr_sender_step_low:
  assumes "index (sr_sender s) < 8" "\<not> going_high (sr_sender s)"
  shows "snd (sr_sender_step s) =
           s\<lparr>pin_trace := pin_trace s @ [(SRCLK, False)],
             sr_sender := (sr_sender s)\<lparr>going_high := True\<rparr>\<rparr>"
  using assms by (simp add: sender_unfold Let_def)

lemma sr_sender_step_high:
  assumes "index (sr_sender s) < 8" "going_high (sr_sender s)"
  shows "snd (sr_sender_step s) =
           s\<lparr>pin_trace := pin_trace s @
                [(SER, bit (val (sr_sender s)) (7 - unat (index (sr_sender s)))), (SRCLK, True)],
             sr_sender := (sr_sender s)\<lparr>going_high := False,
                                        index := index (sr_sender s) + 1\<rparr>\<rparr>"
  using assms
  by (simp add: sender_unfold Let_def bit_iff_and_push_bit_not_eq_0 del: push_bit_of_1)

lemma small_index:
  assumes "k < 8"
  shows "(of_nat k :: 8 word) < 8" and "unat (of_nat k :: 8 word) = k"
proof -
  from assms show u: "unat (of_nat k :: 8 word) = k"
    by (simp add: unat_of_nat)
  then show "(of_nat k :: 8 word) < 8"
    using assms by (simp add: word_less_nat_alt)
qed

lemma sr_sender_after_low:
  assumes "sr_sender s = \<lparr>val = b, index = of_nat k, going_high = False\<rparr>" "k < 8"
  shows "snd (sr_sender_step s) =
           s\<lparr>pin_trace := pin_trace s @ [(SRCLK, False)],
             sr_sender := \<lparr>val = b, index = of_nat k, going_high = True\<rparr>\<rparr>"
  using sr_sender_step_low[of s] assms small_index(1)[OF assms(2)] by simp

lemma sr_sender_after_high:
  assumes "sr_sender s = \<lparr>val = b, index = of_nat k, going_high = True\<rparr>" "k < 8"
  shows "snd (sr_sender_step s) =
           s\<lparr>pin_trace := pin_trace s @ [(SER, bit b (7 - k)), (SRCLK, True)],
             sr_sender := \<lparr>val = b, index = of_nat (Suc k), going_high = False\<rparr>\<rparr>"
  using sr_sender_step_high[of s] assms small_index[OF assms(2)] by simp

lemma sr_sender_steps_next:
  "sr_sender_steps (n + 1) s = snd (sr_sender_step (sr_sender_steps n s))"
  by (simp only: sr_sender_steps_add) simp

lemma sr_sender_even:
  "k \<le> 8 \<Longrightarrow>
   sr_sender (sr_sender_steps (2 * k) (init_sr_sender b s)) =
     \<lparr>val = b, index = of_nat k, going_high = False\<rparr>"
proof (induction k)
  case 0
  show ?case by (simp add: init_sr_sender_def)
next
  case (Suc k)
  then have k: "k < 8" and ih: "sr_sender (sr_sender_steps (2 * k) (init_sr_sender b s)) =
     \<lparr>val = b, index = of_nat k, going_high = False\<rparr>"
    by simp_all
  let ?s0 = "sr_sender_steps (2 * k) (init_sr_sender b s)"
  let ?s1 = "snd (sr_sender_step ?s0)"
  have "2 * Suc k = 2 * k + 1 + 1" by simp
  then have two: "sr_sender_steps (2 * Suc k) (init_sr_sender b s) = snd (sr_sender_step ?s1)"
    by (simp only: sr_sender_steps_next)
  have od: "sr_sender ?s1 = \<lparr>val = b, index = of_nat k, going_high = True\<rparr>"
    by (subst sr_sender_after_low[OF ih k]) simp
  show ?case
    unfolding two by (subst sr_sender_after_high[OF od k]) simp
qed

text \<open>C8: for every byte \<open>b\<close> and every \<open>k\<close> from 0 to 7, after \<^verbatim>\<open>init_sr_sender(b)\<close>
  call \<open>2k + 1\<close> is the clock-low step and writes the clock low and nothing else; call
  \<open>2k + 2\<close> is the clock-high step and writes bit \<open>7 - k\<close> of \<open>b\<close> on the data pin and
  then the clock high. So the data pin is written once per clock-high step, together with
  the rising clock edge that follows a clock-low step, and the eight data writes of the
  sixteen calls are the bits of \<open>b\<close>, most significant first.\<close>

theorem sr_sender_msb_first:
  assumes "k < 8"
  shows "pin_trace (sr_sender_steps (2 * k + 1) (init_sr_sender b s)) =
           pin_trace (sr_sender_steps (2 * k) (init_sr_sender b s)) @ [(SRCLK, False)] \<and>
         pin_trace (sr_sender_steps (2 * k + 2) (init_sr_sender b s)) =
           pin_trace (sr_sender_steps (2 * k + 1) (init_sr_sender b s)) @
             [(SER, bit b (7 - k)), (SRCLK, True)] \<and>
         pin_trace (sr_sender_steps 16 (init_sr_sender b s)) =
           pin_trace s @
           concat (map (\<lambda>k. [(SRCLK, False), (SER, bit b (7 - k)), (SRCLK, True)]) [0..<8])"
proof -
  let ?s0 = "sr_sender_steps (2 * k) (init_sr_sender b s)"
  let ?s1 = "snd (sr_sender_step ?s0)"
  from assms have ev: "sr_sender ?s0 = \<lparr>val = b, index = of_nat k, going_high = False\<rparr>"
    by (intro sr_sender_even) simp
  have one: "sr_sender_steps (2 * k + 1) (init_sr_sender b s) = ?s1"
    by (simp only: sr_sender_steps_next)
  have "2 * k + 2 = 2 * k + 1 + 1" by simp
  then have two: "sr_sender_steps (2 * k + 2) (init_sr_sender b s) = snd (sr_sender_step ?s1)"
    by (simp only: sr_sender_steps_next)
  have od: "sr_sender ?s1 = \<lparr>val = b, index = of_nat k, going_high = True\<rparr>"
    by (subst sr_sender_after_low[OF ev assms]) simp
  have "pin_trace (sr_sender_steps (2 * k + 1) (init_sr_sender b s)) =
          pin_trace ?s0 @ [(SRCLK, False)]"
    unfolding one by (subst sr_sender_after_low[OF ev assms]) simp
  moreover have "pin_trace (sr_sender_steps (2 * k + 2) (init_sr_sender b s)) =
          pin_trace (sr_sender_steps (2 * k + 1) (init_sr_sender b s)) @
            [(SER, bit b (7 - k)), (SRCLK, True)]"
    unfolding one two by (subst sr_sender_after_high[OF od assms]) simp
  moreover have "pin_trace (sr_sender_steps 16 (init_sr_sender b s)) =
           pin_trace s @
           concat (map (\<lambda>k. [(SRCLK, False), (SER, bit b (7 - k)), (SRCLK, True)]) [0..<8])"
    by (simp add: sr_sender_sixteen_state)
  ultimately show ?thesis by blast
qed

theorem sr_sender_msb_first_witness:
  "(3 :: nat) < 8 \<and>
   pin_trace (sr_sender_steps (2 * 3 + 1) (init_sr_sender 0xA5 power_on)) =
     pin_trace (sr_sender_steps (2 * 3) (init_sr_sender 0xA5 power_on)) @ [(SRCLK, False)] \<and>
   pin_trace (sr_sender_steps (2 * 3 + 2) (init_sr_sender 0xA5 power_on)) =
     pin_trace (sr_sender_steps (2 * 3 + 1) (init_sr_sender 0xA5 power_on)) @
       [(SER, bit (0xA5 :: 8 word) (7 - 3)), (SRCLK, True)]"
proof -
  have h: "(3 :: nat) < 8" by simp
  from sr_sender_msb_first[OF h, of "0xA5" power_on] h show ?thesis
    by blast
qed

section \<open>Invalid digits\<close>

lemma push_digit_invalid_no_dot:
  "value AND 0b10000 = 0 \<Longrightarrow> 10 \<le> value \<Longrightarrow> push_digit value s = s"
  by (simp add: push_digit_def)

lemma push_digit_invalid_dot:
  "value AND 0b10000 \<noteq> 0 \<Longrightarrow> 10 \<le> value AND 0b1111 \<Longrightarrow>
   push_digit value s =
     s\<lparr>display_dotmask := display_dotmask s OR push_bit (unat (digit_count s)) 1\<rparr>"
  by (simp add: push_digit_def)

text \<open>C4: a flushed value whose digit field is 10 or more is to leave \<open>display_value\<close>,
  \<open>display_dotmask\<close> and \<open>digit_count\<close> as they were. The flushed value 27 (binary 11011:
  dot flag set, digit field 11) on the zeroed state keeps \<open>display_value\<close> and
  \<open>digit_count\<close>, but sets bit 0 of \<open>display_dotmask\<close>: the dot is recorded before the
  digit is checked.\<close>

theorem push_digit_invalid_sets_dot:
  "(27 :: 8 word) AND 0b1111 = 11 \<and> display_dotmask power_on = 0 \<and>
   display_dotmask (push_digit 27 power_on) = 1 \<and>
   digit_count (push_digit 27 power_on) = digit_count power_on \<and>
   display_value (push_digit 27 power_on) = display_value power_on"
  by (simp add: push_digit_def power_on_def)

section \<open>The bit queue: round trip and overflow\<close>

lemma unat_succ_small: "unat (x :: 8 word) < 255 \<Longrightarrow> unat (x + 1) = Suc (unat x)"
  by (simp add: unat_word_ariths)

lemma succ_not_sixteen: "unat (x :: 8 word) < 15 \<Longrightarrow> x + 1 \<noteq> 16"
proof
  assume "unat x < 15" "x + 1 = 16"
  then have "unat (x + 1) = 16" by simp
  with \<open>unat x < 15\<close> show False by (simp add: unat_succ_small)
qed

lemma bit_set_slot:
  "w < 16 \<Longrightarrow> bit ((d :: 16 word) OR push_bit w 1) i = (i = w \<or> bit d i)"
  by (auto simp add: bit_or_iff bit_exp_iff)

lemma bit_clear_slot:
  "bit ((d :: 16 word) AND NOT (push_bit w 1)) i = (i \<noteq> w \<and> bit d i)"
  by (auto simp add: bit_and_iff bit_not_iff bit_exp_iff dest: bit_imp_le_length)

lemma serial_queue_write_data:
  "data (serial_queue_write b q) =
     (if b then data q OR push_bit (unat (write_index q)) 1
      else data q AND NOT (push_bit (unat (write_index q)) 1))"
  by (simp add: serial_queue_write_def Let_def)

lemma serial_queue_write_read_index:
  "read_index (serial_queue_write b q) = read_index q"
  by (simp add: serial_queue_write_def Let_def)

lemma serial_queue_write_index:
  "write_index (serial_queue_write b q) =
     (if write_index q + 1 = 16 then 0 else write_index q + 1)"
  by (simp add: serial_queue_write_def Let_def)

lemma serial_queue_write_bit:
  "unat (write_index q) < 16 \<Longrightarrow>
   bit (data (serial_queue_write b q)) i =
     (if i = unat (write_index q) then b else bit (data q) i)"
  unfolding serial_queue_write_data
  by (cases b) (simp_all only: bit_set_slot bit_clear_slot if_True if_False, auto)

lemma serial_queue_write_below:
  assumes "unat (write_index q) < 15"
  shows "unat (write_index (serial_queue_write b q)) = Suc (unat (write_index q))"
    and "read_index (serial_queue_write b q) = read_index q"
    and "bit (data (serial_queue_write b q)) i =
           (if i = unat (write_index q) then b else bit (data q) i)"
proof -
  show "unat (write_index (serial_queue_write b q)) = Suc (unat (write_index q))"
    using assms by (simp add: serial_queue_write_index succ_not_sixteen unat_succ_small)
  show "read_index (serial_queue_write b q) = read_index q"
    by (rule serial_queue_write_read_index)
  show "bit (data (serial_queue_write b q)) i =
           (if i = unat (write_index q) then b else bit (data q) i)"
    using assms by (intro serial_queue_write_bit) simp
qed

lemma serial_queue_writes_below:
  "unat (write_index q) + length bs \<le> 15 \<Longrightarrow>
   unat (write_index (serial_queue_writes bs q)) = unat (write_index q) + length bs \<and>
   read_index (serial_queue_writes bs q) = read_index q \<and>
   (\<forall>i. bit (data (serial_queue_writes bs q)) i =
      (if unat (write_index q) \<le> i \<and> i < unat (write_index q) + length bs
       then bs ! (i - unat (write_index q)) else bit (data q) i))"
proof (induction bs arbitrary: q)
  case Nil
  then show ?case by auto
next
  case (Cons b bs)
  then have lt: "unat (write_index q) < 15" by simp
  note w = serial_queue_write_below[OF lt, of b]
  from Cons.prems w(1) have "unat (write_index (serial_queue_write b q)) + length bs \<le> 15"
    by simp
  note ih = Cons.IH[OF this, unfolded w]
  have "unat (write_index (serial_queue_writes (b # bs) q)) =
          unat (write_index q) + length (b # bs)"
    using ih by simp
  moreover have "read_index (serial_queue_writes (b # bs) q) = read_index q"
    using ih by simp
  moreover have "bit (data (serial_queue_writes (b # bs) q)) i =
      (if unat (write_index q) \<le> i \<and> i < unat (write_index q) + length (b # bs)
       then (b # bs) ! (i - unat (write_index q)) else bit (data q) i)" for i
  proof -
    consider "i < unat (write_index q)" | "i = unat (write_index q)"
      | "unat (write_index q) < i"
      by arith
    then show ?thesis
    proof cases
      case 1
      then show ?thesis using ih by simp
    next
      case 2
      then show ?thesis using ih by simp
    next
      case 3
      then have "(b # bs) ! (i - unat (write_index q)) = bs ! (i - Suc (unat (write_index q)))"
        by (simp add: nth_Cons')
      with 3 show ?thesis using ih by auto
    qed
  qed
  ultimately show ?case by blast
qed

lemma serial_queue_read_some:
  assumes "unat (read_index q) < unat (write_index q)" "unat (write_index q) \<le> 15"
  shows "serial_queue_read q =
           Some (bit (data q) (unat (read_index q)), q\<lparr>read_index := read_index q + 1\<rparr>)"
    and "unat (read_index q + 1) = Suc (unat (read_index q))"
proof -
  from assms show u: "unat (read_index q + 1) = Suc (unat (read_index q))"
    by (simp add: unat_succ_small)
  from assms have ne: "read_index q + 1 \<noteq> 16"
    by (intro succ_not_sixteen) simp
  from assms have "read_index q \<noteq> write_index q"
    by auto
  with ne show "serial_queue_read q =
           Some (bit (data q) (unat (read_index q)), q\<lparr>read_index := read_index q + 1\<rparr>)"
    by (simp add: serial_queue_read_def Let_def bit_iff_and_push_bit_not_eq_0
             del: push_bit_of_1)
qed

lemma serial_queue_reads_all:
  "unat (read_index q) \<le> unat (write_index q) \<Longrightarrow> unat (write_index q) \<le> 15 \<Longrightarrow>
   unat (write_index q) - unat (read_index q) \<le> n \<Longrightarrow>
   serial_queue_reads n q =
     (map (bit (data q)) [unat (read_index q) ..< unat (write_index q)],
      q\<lparr>read_index := write_index q\<rparr>)"
proof (induction n arbitrary: q)
  case 0
  then have "read_index q = write_index q"
    by (simp add: word_unat_eq_iff)
  then show ?case by simp
next
  case (Suc n)
  show ?case
  proof (cases "unat (read_index q) = unat (write_index q)")
    case True
    then have "read_index q = write_index q"
      by (simp add: word_unat_eq_iff)
    then show ?thesis by (simp add: serial_queue_read_def)
  next
    case False
    with Suc.prems have lt: "unat (read_index q) < unat (write_index q)" by simp
    note r = serial_queue_read_some[OF lt Suc.prems(2)]
    let ?q1 = "q\<lparr>read_index := read_index q + 1\<rparr>"
    have "serial_queue_reads n ?q1 =
            (map (bit (data ?q1)) [unat (read_index ?q1) ..< unat (write_index ?q1)],
             ?q1\<lparr>read_index := write_index ?q1\<rparr>)"
      using Suc.prems lt r(2) by (intro Suc.IH) simp_all
    then show ?thesis
      using lt by (simp add: r upt_conv_Cons)
  qed
qed

lemma serial_queue_writes_fresh:
  assumes "length bs \<le> 15"
  shows "unat (write_index (serial_queue_writes bs serial_queue_init)) = length bs"
    and "read_index (serial_queue_writes bs serial_queue_init) = 0"
    and "i < length bs \<Longrightarrow> bit (data (serial_queue_writes bs serial_queue_init)) i = bs ! i"
proof -
  have z: "unat (write_index serial_queue_init) = 0" "read_index serial_queue_init = 0"
    by (simp_all add: serial_queue_init_def)
  from assms have "unat (write_index serial_queue_init) + length bs \<le> 15"
    by (simp add: z)
  note w = serial_queue_writes_below[OF this, unfolded z]
  from w show "unat (write_index (serial_queue_writes bs serial_queue_init)) = length bs"
    by simp
  from w show "read_index (serial_queue_writes bs serial_queue_init) = 0"
    by simp
  assume "i < length bs"
  moreover from w
  have "bit (data (serial_queue_writes bs serial_queue_init)) i =
          (if 0 \<le> i \<and> i < 0 + length bs then bs ! (i - 0) else bit (data serial_queue_init) i)"
    by blast
  ultimately show "bit (data (serial_queue_writes bs serial_queue_init)) i = bs ! i"
    by simp
qed

text \<open>C6: from a reset queue, writing any sequence of at most 15 bits and then reading as
  many times gives back the same sequence in the same order, and the next read returns
  \<^verbatim>\<open>false\<close>.\<close>

theorem serial_queue_round_trip:
  assumes "length bs \<le> 15"
  shows "fst (serial_queue_reads (length bs) (serial_queue_writes bs serial_queue_init)) = bs \<and>
         serial_queue_read
           (snd (serial_queue_reads (length bs) (serial_queue_writes bs serial_queue_init))) = None"
proof -
  let ?q = "serial_queue_writes bs serial_queue_init"
  note w = serial_queue_writes_fresh[OF assms]
  have "serial_queue_reads (length bs) ?q =
          (map (bit (data ?q)) [unat (read_index ?q) ..< unat (write_index ?q)],
           ?q\<lparr>read_index := write_index ?q\<rparr>)"
    using assms by (intro serial_queue_reads_all) (simp_all add: w(1,2))
  moreover have "map (bit (data ?q)) [unat (read_index ?q) ..< unat (write_index ?q)] = bs"
    unfolding w(1,2) by (rule nth_equalityI) (simp_all add: w(3))
  ultimately show ?thesis
    by (simp add: serial_queue_read_def)
qed


theorem serial_queue_round_trip_witness:
  "length [True, False, False, True, True] \<le> 15 \<and>
   fst (serial_queue_reads (length [True, False, False, True, True])
         (serial_queue_writes [True, False, False, True, True] serial_queue_init)) =
     [True, False, False, True, True] \<and>
   serial_queue_read
     (snd (serial_queue_reads (length [True, False, False, True, True])
            (serial_queue_writes [True, False, False, True, True] serial_queue_init))) = None"
  using serial_queue_round_trip[of "[True, False, False, True, True]"] by simp

lemma serial_queue_writes_append:
  "serial_queue_writes (xs @ ys) q = serial_queue_writes ys (serial_queue_writes xs q)"
  by (induction xs arbitrary: q) simp_all

text \<open>C3, as stated, fails on the test pattern: after seventeen writes sixteen reads give
  one bit only, the seventeenth, not the sixteen bits from the second to the
  seventeenth.\<close>

theorem serial_queue_overflow_example:
  "length seventeen_bits = 17 \<and>
   fst (serial_queue_reads 16 (serial_queue_writes seventeen_bits serial_queue_init)) = [True] \<and>
   fst (serial_queue_reads 16 (serial_queue_writes seventeen_bits serial_queue_init))
     \<noteq> tl seventeen_bits"
  by code_simp

text \<open>C3, amended: from a reset queue, writing 17 bits before any read overwrites the
  first written bit and leaves exactly one bit readable, the seventeenth: the sixteenth
  write wraps the write cursor onto the read cursor, so the first sixteen bits are all
  lost; after the one successful read the queue reads as empty.\<close>

theorem serial_queue_overflow:
  assumes "length bs = 17"
  shows "fst (serial_queue_reads (Suc n) (serial_queue_writes bs serial_queue_init)) = [bs ! 16] \<and>
         serial_queue_read
           (snd (serial_queue_reads (Suc n) (serial_queue_writes bs serial_queue_init))) = None"
proof -
  let ?q15 = "serial_queue_writes (take 15 bs) serial_queue_init"
  let ?q16 = "serial_queue_write (bs ! 15) ?q15"
  let ?q17 = "serial_queue_write (bs ! 16) ?q16"
  from assms have "bs = take 15 bs @ drop 15 bs" by simp
  moreover from assms have "drop 15 bs = bs ! 15 # drop (Suc 15) bs"
    by (intro Cons_nth_drop_Suc[symmetric]) simp
  moreover from assms have "drop 16 bs = bs ! 16 # drop (Suc 16) bs"
    by (intro Cons_nth_drop_Suc[symmetric]) simp
  ultimately have split: "bs = take 15 bs @ [bs ! 15, bs ! 16]"
    using assms by simp
  have q: "serial_queue_writes bs serial_queue_init = ?q17"
    by (subst split) (simp add: serial_queue_writes_append)
  from assms have len: "length (take 15 bs) \<le> 15" by simp
  from assms have "unat (write_index ?q15) = 15" "read_index ?q15 = 0"
    using serial_queue_writes_fresh(1,2)[OF len] by simp_all
  then have w15: "write_index ?q15 = 15" and r15: "read_index ?q15 = 0"
    by (simp_all add: word_unat_eq_iff)
  have w16: "write_index ?q16 = 0" and r16: "read_index ?q16 = 0"
    by (simp_all add: serial_queue_write_index[of _ ?q15] serial_queue_write_read_index[of _ ?q15]
          w15 r15)
  have w17: "write_index ?q17 = 1" and r17: "read_index ?q17 = 0"
    by (simp_all add: serial_queue_write_index[of _ ?q16] serial_queue_write_read_index[of _ ?q16]
          w16 r16)
  have b17: "bit (data ?q17) 0 = bs ! 16"
    using serial_queue_write_bit[of ?q16 "bs ! 16" 0] by (simp add: w16)
  have "serial_queue_reads (Suc n) ?q17 =
          (map (bit (data ?q17)) [unat (read_index ?q17) ..< unat (write_index ?q17)],
           ?q17\<lparr>read_index := write_index ?q17\<rparr>)"
    by (intro serial_queue_reads_all) (simp_all add: w17 r17)
  then show ?thesis
    unfolding q by (simp add: w17 r17 b17 serial_queue_read_def)
qed

theorem serial_queue_overflow_witness:
  "length seventeen_bits = 17 \<and>
   fst (serial_queue_reads (Suc 3) (serial_queue_writes seventeen_bits serial_queue_init)) =
     [seventeen_bits ! 16] \<and>
   serial_queue_read
     (snd (serial_queue_reads (Suc 3) (serial_queue_writes seventeen_bits serial_queue_init))) = None"
  using serial_queue_overflow[of seventeen_bits 3] by (simp add: seventeen_bits_def)

section \<open>End-to-end decoding\<close>

lemmas loop_unfold =
  seg7multiplex_int0_interrupt_def seg7multiplex_timer0_interrupt_def seg7multiplex_loop_def
  begin_input_mode_def end_input_mode_def push_digit_def int_pow10_def
  serial_queue_init_def serial_queue_write_def serial_queue_read_def
  MAX_SER_CYCLES_BEFORE_TIMEOUT_def DIGITS_def Let_def

lemma ten_le_one: "\<not> (10 :: 8 word) \<le> 1"
  by (simp add: word_le_nat_alt)

text \<open>C1, as stated, fails. With the bits of each group delivered in the listed order the
  loop stores the first bit received at bit 0, so the four groups read as 16, 8, 24 and 4:
  two dot flags are set and \<open>display_value\<close> ends at 4880. With each group delivered least
  significant bit first the digits read as 1, 2, 3, 4 with no dot, and \<open>display_value\<close> ends
  at 4321, the first digit received in the units place. Neither order gives 1234.\<close>

theorem decode_not_1234:
  "decoded (run (Int0 True #
                 deliver_group [False, False, False, False, True] False @
                 deliver_group [False, False, False, True, False] False @
                 deliver_group [False, False, False, True, True] False @
                 deliver_group [False, False, True, False, False] False)
            (seg7multiplex_setup power_on)) = Some (4880, 4, False, 5) \<and>
   decoded (run (Int0 True #
                 deliver_group [True, False, False, False, False] False @
                 deliver_group [False, True, False, False, False] False @
                 deliver_group [True, True, False, False, False] False @
                 deliver_group [False, False, True, False, False] False)
            (seg7multiplex_setup power_on)) = Some (4321, 4, False, 0)"
  by (simp add: decoded_def seg7multiplex_setup_def power_on_def deliver_group_def loop_unfold
        drain_queue.simps ten_le_one)

text \<open>C1, amended: for the 4-digit configuration, starting in display mode with the queue
  reset, after the announce edge and the four groups for the digits 1, 2, 3, 4 with dot
  flags clear, each group delivered least significant bit first and followed by a call of
  the main loop (with or without a timer tick before it), the loop ends with
  \<open>display_value\<close> = 4321 (the first digit received has place weight 1),
  \<open>digit_count\<close> = 4, \<open>input_mode\<close> false and \<open>display_dotmask\<close> = 0.\<close>

theorem decode_lsb_first:
  assumes "display_idle s"
  shows "decoded (run (Int0 lvl #
                       deliver_group [True, False, False, False, False] t1 @
                       deliver_group [False, True, False, False, False] t2 @
                       deliver_group [True, True, False, False, False] t3 @
                       deliver_group [False, False, True, False, False] t4) s)
         = Some (4321, 4, False, 0)"
  using assms
  by (simp add: decoded_def display_idle_def deliver_group_def loop_unfold drain_queue.simps
        ten_le_one)

theorem decode_lsb_first_witness:
  "display_idle (seg7multiplex_setup power_on) \<and>
   decoded (run (Int0 True #
                 deliver_group [True, False, False, False, False] True @
                 deliver_group [False, True, False, False, False] True @
                 deliver_group [True, True, False, False, False] True @
                 deliver_group [False, False, True, False, False] True)
            (seg7multiplex_setup power_on)) = Some (4321, 4, False, 0)"
proof -
  have idle: "display_idle (seg7multiplex_setup power_on)"
    by (simp add: display_idle_def seg7multiplex_setup_def power_on_def)
  from decode_lsb_first[OF idle, of True True True True True] idle show ?thesis
    by simp
qed

section \<open>Timeout recovery\<close>

lemma drain_queue_empty:
  "read_index (serial_queue s) = write_index (serial_queue s) \<Longrightarrow>
   drain_queue s = Some (False, s)"
  by (subst drain_queue.simps) (simp add: serial_queue_read_def)

lemma display_loop_keeps:
  assumes "\<not> input_mode s"
  shows "\<exists>s'. seg7multiplex_loop s = Some s' \<and> input_mode s' = input_mode s \<and>
           display_value s' = display_value s \<and> display_dotmask s' = display_dotmask s \<and>
           ser_timeout s' = ser_timeout s \<and> serial_queue s' = serial_queue s"
  using assms
  by (simp add: seg7multiplex_loop_def perform_display_step_def sr_sender_step_def
        send_next_glyph_def init_sr_sender_def pinset_def pinhigh_def pinlow_def Let_def
      split: prod.splits SRValueSenderStatus.splits)

lemma timeout_phase_loop:
  assumes "timeout_phase k s"
  shows "\<exists>s'. seg7multiplex_loop s = Some s' \<and>
           timeout_phase (k + (if refresh_needed s then 1 else 0)) s'"
proof (cases "k < 3")
  case False
  with assms have "\<not> input_mode s" "display_value s = 0" "display_dotmask s = 1"
    by (simp_all add: timeout_phase_def)
  with display_loop_keeps[OF this(1)] False show ?thesis
    by (auto simp add: timeout_phase_def)
next
  case True
  with assms have im: "input_mode s"
    and em: "read_index (serial_queue s) = write_index (serial_queue s)"
    by (auto simp add: timeout_phase_def waiting_def split: if_splits)
  let ?s1 = "if ser_timeout s = 0 then begin_input_mode s else s"
  have em1: "read_index (serial_queue ?s1) = write_index (serial_queue ?s1)"
    using em by (simp add: begin_input_mode_def)
  have dr: "drain_queue ?s1 = Some (False, ?s1)"
    by (rule drain_queue_empty[OF em1])
  from True consider "k = 0" | "k = 1" | "k = 2" by arith
  then show ?thesis
  proof cases
    case 1
    with assms have "ser_timeout s = 0 \<or> waiting 3 s"
      by (auto simp add: timeout_phase_def)
    then show ?thesis
      using im em 1 dr
      by (auto simp add: seg7multiplex_loop_def timeout_phase_def waiting_def
            begin_input_mode_def MAX_SER_CYCLES_BEFORE_TIMEOUT_def Let_def)
  next
    case 2
    with assms have "waiting 2 s"
      by (simp add: timeout_phase_def)
    then show ?thesis
      using 2 dr
      by (auto simp add: seg7multiplex_loop_def timeout_phase_def waiting_def Let_def)
  next
    case 3
    with assms have "waiting 1 s"
      by (simp add: timeout_phase_def)
    then show ?thesis
      using 3 dr
      by (auto simp add: seg7multiplex_loop_def timeout_phase_def waiting_def
            end_input_mode_def Let_def)
  qed
qed

lemma timeout_phase_timer:
  "timeout_phase k (seg7multiplex_timer0_interrupt s) = timeout_phase k s"
  by (simp add: seg7multiplex_timer0_interrupt_def timeout_phase_def waiting_def)

lemma timeout_phase_step:
  assumes "timeout_phase k s" "e = Timer0 \<or> e = Loop"
  shows "\<exists>s'. step_event e s = Some s' \<and>
           timeout_phase (k + (if e = Loop \<and> refresh_needed s then 1 else 0)) s'"
proof (cases "e = Loop")
  case True
  with timeout_phase_loop[OF assms(1)] show ?thesis by simp
next
  case False
  with assms(2) have "e = Timer0" by simp
  with assms(1) show ?thesis
    by (simp add: timeout_phase_timer)
qed

lemma timeout_phase_run:
  "timeout_phase k s \<Longrightarrow> set evs \<subseteq> {Timer0, Loop} \<Longrightarrow>
   \<exists>s'. run evs s = Some s' \<and> timeout_phase (k + pending_loops evs s) s'"
proof (induction evs arbitrary: k s)
  case Nil
  then show ?case by simp
next
  case (Cons e evs)
  from Cons.prems have e: "e = Timer0 \<or> e = Loop" and rest: "set evs \<subseteq> {Timer0, Loop}"
    by auto
  from timeout_phase_step[OF Cons.prems(1) e] obtain s1 where
    s1: "step_event e s = Some s1"
    and p1: "timeout_phase (k + (if e = Loop \<and> refresh_needed s then 1 else 0)) s1"
    by blast
  from Cons.IH[OF p1 rest] obtain s' where
    "run evs s1 = Some s'"
    "timeout_phase (k + (if e = Loop \<and> refresh_needed s then 1 else 0) + pending_loops evs s1) s'"
    by blast
  with s1 show ?case
    by (simp add: add.assoc)
qed

text \<open>C7: start in display mode and let the announce edge arrive; from then on let only
  timer ticks and calls of the main loop happen, in any order, and no data edge. As long
  as fewer than 3 of the loop calls have found the refresh tick pending, the unit is still
  in input mode; once exactly 3 have, input mode has ended, \<open>display_dotmask\<close> is exactly
  0x1 and \<open>display_value\<close> is 0.\<close>

theorem timeout_recovery:
  assumes "display_idle s" and "set evs \<subseteq> {Timer0, Loop}"
    and "pending_loops evs (seg7multiplex_int0_interrupt lvl s) \<le> 3"
  shows "\<exists>s'. run evs (seg7multiplex_int0_interrupt lvl s) = Some s' \<and>
           (if pending_loops evs (seg7multiplex_int0_interrupt lvl s) < 3 then input_mode s'
            else \<not> input_mode s' \<and> display_dotmask s' = 0x1 \<and> display_value s' = 0)"
proof -
  from assms(1) have "timeout_phase 0 (seg7multiplex_int0_interrupt lvl s)"
    by (simp add: display_idle_def timeout_phase_def seg7multiplex_int0_interrupt_def
          serial_queue_init_def)
  from timeout_phase_run[OF this assms(2)] assms(3) show ?thesis
    by (auto simp add: timeout_phase_def waiting_def split: if_splits)
qed

theorem timeout_recovery_witness:
  "display_idle (seg7multiplex_setup power_on) \<and>
   set [Loop, Timer0, Loop, Loop, Timer0, Loop] \<subseteq> {Timer0, Loop} \<and>
   pending_loops [Loop, Timer0, Loop, Loop, Timer0, Loop]
     (seg7multiplex_int0_interrupt True (seg7multiplex_setup power_on)) \<le> 3 \<and>
   (\<exists>s'. run [Loop, Timer0, Loop, Loop, Timer0, Loop]
           (seg7multiplex_int0_interrupt True (seg7multiplex_setup power_on)) = Some s' \<and>
         \<not> input_mode s' \<and> display_dotmask s' = 0x1 \<and> display_value s' = 0)"
proof -
  have h1: "display_idle (seg7multiplex_setup power_on)"
    by (simp add: display_idle_def seg7multiplex_setup_def power_on_def)
  have h2: "set [Loop, Timer0, Loop, Loop, Timer0, Loop] \<subseteq> {Timer0, Loop}"
    by simp
  have h3: "pending_loops [Loop, Timer0, Loop, Loop, Timer0, Loop]
     (seg7multiplex_int0_interrupt True (seg7multiplex_setup power_on)) = 3"
    by code_simp
  from timeout_recovery[OF h1 h2, of True] h1 h2 h3 show ?thesis
    by simp
qed

section \<open>The bound on the display value\<close>

lemma unat_pow10: "n < 4 \<Longrightarrow> unat (10 ^ n :: 32 word) = 10 ^ n"
proof -
  assume "n < 4"
  then consider "n = 0" | "n = 1" | "n = 2" | "n = 3" by arith
  then show ?thesis by cases simp_all
qed

lemma pow10_le: "n < 4 \<Longrightarrow> (10::nat) ^ Suc n \<le> 10000"
proof -
  assume "n < 4"
  then consider "n = 0" | "n = 1" | "n = 2" | "n = 3" by arith
  then show ?thesis by cases simp_all
qed

lemma add_digit_bound:
  fixes dv :: "32 word" and d :: "8 word"
  assumes "unat d < 10" "n < 4" "unat dv < 10 ^ n"
  shows "unat (dv + ucast d * 10 ^ n) < 10 ^ Suc n"
proof -
  define P :: nat where "P = 10 ^ n"
  have "unat d < 2 ^ 8"
    using unsigned_less[of d, where 'a = nat] by simp
  then have ud: "unat (ucast d :: 32 word) = unat d"
    by (simp add: unsigned_ucast_eq take_bit_nat_eq_self_iff)
  have up: "unat (10 ^ n :: 32 word) = P"
    by (simp add: P_def unat_pow10[OF assms(2)])
  from pow10_le[OF assms(2)] have p: "P \<le> 1000"
    by (simp add: P_def)
  from assms(1) have "unat d \<le> 9" by simp
  then have le: "unat d * P \<le> 9 * P"
    by (rule mult_le_mono1)
  from le p have small: "unat d * P < 4294967296"
    by linarith
  then have "unat (ucast d :: 32 word) * unat (10 ^ n :: 32 word) < 2 ^ LENGTH(32)"
    by (simp add: ud up)
  from unat_mult_lem[THEN iffD1, OF this]
  have um: "unat (ucast d * 10 ^ n :: 32 word) = unat d * P"
    by (simp only: ud up)
  from assms(3) have dvP: "unat dv < P"
    by (simp add: P_def)
  from dvP le p have sum: "unat dv + unat d * P < 10 * P" "unat dv + unat d * P < 4294967296"
    by linarith+
  then have "unat dv + unat (ucast d * 10 ^ n :: 32 word) < 2 ^ LENGTH(32)"
    by (simp add: um)
  from unat_add_lem[THEN iffD1, OF this]
  have "unat (dv + ucast d * 10 ^ n) = unat dv + unat d * P"
    by (simp only: um)
  with sum(1) show ?thesis
    by (simp add: P_def)
qed

lemma narrow_lossless:
  fixes x :: "32 word"
  assumes "unat x < 10000"
  shows "ucast (ucast x :: 16 word) = x"
proof -
  have "unat (ucast (ucast x :: 16 word) :: 32 word) = unat x"
    using assms
    by (simp add: unsigned_ucast_eq unsigned_take_bit_eq take_bit_nat_eq_self_iff)
  then show ?thesis by (simp add: word_unat_eq_iff)
qed

lemma cursor_advance:
  fixes x :: "8 word"
  assumes "unat x < 16"
  shows "unat (if x + 1 = 16 then 0 else x + 1) = Suc (unat x) mod 16"
proof (cases "unat x = 15")
  case True
  then have "x = 15" by (simp add: word_unat_eq_iff)
  then show ?thesis by simp
next
  case False
  with assms have lt: "unat x < 15" by simp
  then show ?thesis
    by (simp add: succ_not_sixteen unat_succ_small)
qed

lemma cursor_in_range:
  fixes x :: "8 word"
  assumes "unat x < 16"
  shows "unat (if x + 1 = 16 then 0 else x + 1) < 16"
  by (subst cursor_advance[OF assms]) simp

lemma serial_queue_write_in_range:
  assumes "queue_in_range q"
  shows "queue_in_range (serial_queue_write b q)"
proof -
  from assms have "unat (write_index q) < 16" "unat (read_index q) < 16"
    by (simp_all add: queue_in_range_def)
  then show ?thesis
    unfolding queue_in_range_def serial_queue_write_index serial_queue_write_read_index
    by (intro conjI cursor_in_range)
qed

lemma serial_queue_read_advances:
  assumes "queue_in_range q" "read_index q \<noteq> write_index q"
  shows "\<exists>flag q1. serial_queue_read q = Some (flag, q1) \<and> queue_in_range q1 \<and>
           queue_fill q1 < queue_fill q"
proof -
  define r' where "r' = (if read_index q + 1 = 16 then 0 else read_index q + 1)"
  from assms(1) have r: "unat (read_index q) < 16" and w: "unat (write_index q) < 16"
    by (simp_all add: queue_in_range_def)
  from assms(2) have ne: "unat (read_index q) \<noteq> unat (write_index q)"
    by (simp add: word_unat_eq_iff)
  have adv: "unat r' = Suc (unat (read_index q)) mod 16"
    unfolding r'_def by (rule cursor_advance[OF r])
  have rd: "serial_queue_read q =
              Some (data q AND push_bit (unat (read_index q)) 1 \<noteq> 0, q\<lparr>read_index := r'\<rparr>)"
    using assms(2) by (simp add: serial_queue_read_def Let_def r'_def)
  have rng: "queue_in_range (q\<lparr>read_index := r'\<rparr>)"
    using w by (simp add: queue_in_range_def adv del: One_nat_def)
  have "(unat (write_index q) + 16 - Suc (unat (read_index q)) mod 16) mod 16
          < (unat (write_index q) + 16 - unat (read_index q)) mod 16"
    using r w ne by (cases "unat (read_index q) = 15") (auto simp: mod_if)
  then have "queue_fill (q\<lparr>read_index := r'\<rparr>) < queue_fill q"
    by (simp add: queue_fill_def adv del: One_nat_def)
  with rd rng show ?thesis by blast
qed

lemma push_digit_keeps:
  "input_mode (push_digit v s) = input_mode s"
  "ser_timeout (push_digit v s) = ser_timeout s"
  "serial_queue (push_digit v s) = serial_queue s"
  "refresh_needed (push_digit v s) = refresh_needed s"
  by (simp_all add: push_digit_def Let_def)

lemma push_digit_bound:
  assumes "unat (digit_count s) < 4" "unat (display_value s) < 10 ^ unat (digit_count s)"
  shows "unat (digit_count (push_digit v s)) \<le> 4 \<and>
         unat (display_value (push_digit v s)) < 10 ^ unat (digit_count (push_digit v s))"
proof -
  define d where "d = (if v AND 0b10000 \<noteq> 0 then v AND 0b1111 else v)"
  show ?thesis
  proof (cases "10 \<le> d")
    case True
    then show ?thesis
      using assms by (simp add: push_digit_def Let_def d_def)
  next
    case False
    then have d10: "unat d < 10"
      by (simp add: word_le_nat_alt)
    from assms(1) have dc: "unat (digit_count s + 1) = Suc (unat (digit_count s))"
      by (simp add: unat_succ_small)
    have "unat d < 2 ^ 8"
      using unsigned_less[of d, where 'a = nat] by simp
    then have ud: "unat (ucast d :: 32 word) = unat d"
      by (simp add: unsigned_ucast_eq take_bit_nat_eq_self_iff)
    show ?thesis
    proof (cases "digit_count s = 0")
      case True
      with False d10 show ?thesis
        by (simp add: push_digit_def Let_def d_def[symmetric] ud)
    next
      case nz: False
      from add_digit_bound[OF d10 assms]
      have "unat (display_value s + ucast d * 10 ^ unat (digit_count s))
              < 10 ^ Suc (unat (digit_count s))" .
      with False nz assms(1) dc show ?thesis
        by (simp add: push_digit_def Let_def d_def[symmetric] int_pow10_def)
    qed
  qed
qed


lemma drain_queue_total:
  "decoding s \<Longrightarrow>
   \<exists>b s'. drain_queue s = Some (b, s') \<and>
     (if b then safe s' \<and> \<not> input_mode s' else decoding s')"
proof (induction "queue_fill (serial_queue s)" arbitrary: s rule: less_induct)
  case less
  show ?case
  proof (cases "read_index (serial_queue s) = write_index (serial_queue s)")
    case True
    from drain_queue_empty[OF True] less.prems show ?thesis by auto
  next
    case False
    from less.prems have rng: "queue_in_range (serial_queue s)"
      by (simp add: decoding_def)
    from serial_queue_read_advances[OF rng False] obtain flag q1 where
      rd: "serial_queue_read (serial_queue s) = Some (flag, q1)"
      and rng1: "queue_in_range q1"
      and fill: "queue_fill q1 < queue_fill (serial_queue s)"
      by blast
    define s4 where "s4 =
      (if flag
       then s\<lparr>serial_queue := q1,
              ser_input := ser_input s OR push_bit (unat (ser_input_pos s)) 1\<rparr>
       else s\<lparr>serial_queue := q1\<rparr>)
      \<lparr>ser_input_pos := ser_input_pos s + 1, ser_timeout := 3\<rparr>"
    define s6 where "s6 = (push_digit (ser_input s4) s4)\<lparr>ser_input := 0, ser_input_pos := 0\<rparr>"
    have unf: "drain_queue s =
      (if ser_input_pos s4 = 5
       then if digit_count s6 = DIGITS then Some (True, end_input_mode s6) else drain_queue s6
       else drain_queue s4)"
      by (subst drain_queue.simps)
         (simp add: rd s4_def s6_def Let_def MAX_SER_CYCLES_BEFORE_TIMEOUT_def)
    have q4: "serial_queue s4 = q1" and im4: "input_mode s4" and st4: "ser_timeout s4 = 3"
      and dc4: "digit_count s4 = digit_count s" and dv4: "display_value s4 = display_value s"
      using less.prems by (simp_all add: s4_def decoding_def)
    from less.prems have b4: "unat (digit_count s4) < 4"
      "unat (display_value s4) < 10 ^ unat (digit_count s4)"
      by (simp_all add: dc4 dv4 decoding_def)
    have d4: "decoding s4"
      using b4 by (simp add: decoding_def q4 im4 st4 rng1)
    show ?thesis
    proof (cases "ser_input_pos s4 = 5")
      case False
      from fill have "queue_fill (serial_queue s4) < queue_fill (serial_queue s)"
        by (simp add: q4)
      from less.hyps[OF this d4] False unf show ?thesis by auto
    next
      case True
      have q6: "serial_queue s6 = q1" and im6: "input_mode s6" and st6: "ser_timeout s6 = 3"
        by (simp_all add: s6_def push_digit_keeps q4 im4 st4)
      from push_digit_bound[OF b4, of "ser_input s4"]
      have b6: "unat (digit_count s6) \<le> 4"
        "unat (display_value s6) < 10 ^ unat (digit_count s6)"
        by (simp_all add: s6_def)
      show ?thesis
      proof (cases "digit_count s6 = DIGITS")
        case full: True
        then have "unat (digit_count s6) = 4"
          by (simp add: DIGITS_def)
        with b6 have "unat (display_value s6) < 10000" by simp
        then have "safe (end_input_mode s6) \<and> \<not> input_mode (end_input_mode s6)"
          by (simp add: safe_def end_input_mode_def serial_queue_init_def queue_in_range_def)
        with full True unf show ?thesis by auto
      next
        case more: False
        then have "unat (digit_count s6) \<noteq> 4"
          by (simp add: DIGITS_def word_unat_eq_iff)
        with b6 have "unat (digit_count s6) < 4" by simp
        with b6 have d6: "decoding s6"
          by (simp add: decoding_def q6 im6 st6 rng1)
        from fill have "queue_fill (serial_queue s6) < queue_fill (serial_queue s)"
          by (simp add: q6)
        from less.hyps[OF this d6] more True unf show ?thesis by auto
      qed
    qed
  qed
qed

lemma decoding_bound: "decoding s \<Longrightarrow> unat (display_value s) < 10000"
proof -
  assume d: "decoding s"
  then have n: "unat (digit_count s) < 4"
    and v: "unat (display_value s) < 10 ^ unat (digit_count s)"
    by (simp_all add: decoding_def)
  from n have "(10::nat) ^ unat (digit_count s) \<le> 10 ^ 3"
    by (intro power_increasing) simp_all
  with v show ?thesis by simp
qed

lemma safe_loop:
  assumes "safe s"
  shows "\<exists>s'. seg7multiplex_loop s = Some s' \<and> safe s'"
proof (cases "input_mode s")
  case False
  from display_loop_keeps[OF False] obtain s' where
    "seg7multiplex_loop s = Some s'" "input_mode s' = input_mode s"
    "display_value s' = display_value s" "ser_timeout s' = ser_timeout s"
    "serial_queue s' = serial_queue s"
    by blast
  with assms False show ?thesis
    by (simp add: safe_def)
next
  case True
  define s1 where "s1 = (if ser_timeout s = 0 then begin_input_mode s else s)"
  have d1: "decoding s1"
    using assms True
    by (auto simp add: s1_def safe_def decoding_def begin_input_mode_def
          MAX_SER_CYCLES_BEFORE_TIMEOUT_def)
  from drain_queue_total[OF d1] obtain b s2 where
    dr: "drain_queue s1 = Some (b, s2)"
    and post: "if b then safe s2 \<and> \<not> input_mode s2 else decoding s2"
    by blast
  show ?thesis
  proof (cases b)
    case True
    with dr post \<open>input_mode s\<close> show ?thesis
      by (simp add: seg7multiplex_loop_def s1_def[symmetric])
  next
    case False
    with post have d2: "decoding s2" by simp
    then have rng: "queue_in_range (serial_queue s2)" and im: "input_mode s2"
      by (simp_all add: decoding_def)
    note bd = decoding_bound[OF d2]
    define s4 where "s4 = s2\<lparr>refresh_needed := False, ser_timeout := ser_timeout s2 - 1\<rparr>"
    have lp: "seg7multiplex_loop s =
      Some (if refresh_needed s2
            then if ser_timeout s4 = 0 then (end_input_mode s4)\<lparr>display_dotmask := 0x1\<rparr> else s4
            else s2)"
      using dr False \<open>input_mode s\<close>
      by (simp add: seg7multiplex_loop_def s1_def[symmetric] s4_def Let_def)
    have "safe s2"
      using d2 bd by (simp add: safe_def decoding_def)
    moreover have "safe ((end_input_mode s4)\<lparr>display_dotmask := 0x1\<rparr>)"
      using bd by (simp add: safe_def end_input_mode_def s4_def serial_queue_init_def
            queue_in_range_def)
    moreover have "safe s4"
      using d2 bd by (simp add: safe_def decoding_def s4_def)
    ultimately show ?thesis
      by (simp add: lp)
  qed
qed

lemma safe_timer: "safe (seg7multiplex_timer0_interrupt s) = safe s"
  by (simp add: seg7multiplex_timer0_interrupt_def safe_def decoding_def)

lemma safe_step:
  assumes "safe s"
  shows "\<exists>s'. step_event e s = Some s' \<and> safe s'"
proof (cases e)
  case (Int0 b)
  with assms show ?thesis
    by (auto simp add: seg7multiplex_int0_interrupt_def safe_def decoding_def
          serial_queue_write_in_range)
next
  case Timer0
  with assms show ?thesis
    by (simp add: safe_timer)
next
  case Loop
  with safe_loop[OF assms] show ?thesis by simp
qed

lemma safe_run: "safe s \<Longrightarrow> \<exists>s'. run evs s = Some s' \<and> safe s'"
proof (induction evs arbitrary: s)
  case Nil
  then show ?case by simp
next
  case (Cons e evs)
  from safe_step[OF Cons.prems] obtain s1 where "step_event e s = Some s1" "safe s1"
    by blast
  with Cons.IH[of s1] show ?case by simp
qed

lemma safe_setup: "safe (seg7multiplex_setup s)"
  by (simp add: safe_def seg7multiplex_setup_def serial_queue_init_def queue_in_range_def)

text \<open>C10: in the default 4-digit configuration, after \<^verbatim>\<open>seg7multiplex_setup\<close> and any
  sequence of input edges, timer ticks and calls of the main loop, the loop calls all
  return and \<open>display_value\<close> is below 10000, so that narrowing it to the 16-bit parameter
  of \<^verbatim>\<open>glyph_match_mask\<close> and widening it again gives the same value.\<close>

theorem display_value_below_10000:
  "\<exists>s'. run evs (seg7multiplex_setup s) = Some s' \<and> unat (display_value s') < 10000 \<and>
        ucast (ucast (display_value s') :: 16 word) = display_value s'"
proof -
  from safe_run[OF safe_setup] obtain s' where
    "run evs (seg7multiplex_setup s) = Some s'" "safe s'"
    by blast
  moreover from this have "unat (display_value s') < 10000"
    by (simp add: safe_def)
  ultimately show ?thesis
    using narrow_lossless by blast
qed

end
